theory Spec2Isabelle
  imports Main
begin

section \<open>Regular expressions as the program uses them\<close>

text \<open>
  The program hands five pattern strings to Python's \<open>re.findall\<close>. Each pattern is a
  plain sequence of single-character classes (\<open>\d\<close>, \<open>[./-]\<close>, \<open>[-+]\<close>, \<open>[.]\<close>)
  carrying a quantifier (\<open>{n}\<close>, \<open>?\<close>, \<open>+\<close>, or none). The patterns are written
  below in parsed form. A field is a \<open>string\<close>; on the characters of that type
  \<open>\d\<close> is exactly the ten ASCII digits.
\<close>

datatype cls = Digit | OneOf string

fun chars_of :: "cls \<Rightarrow> string" where
  "chars_of Digit = ''0123456789''"
| "chars_of (OneOf cs) = cs"

definition in_cls :: "cls \<Rightarrow> char \<Rightarrow> bool" where
  "in_cls c x = (x \<in> set (chars_of c))"

datatype piece = One cls | Rep cls nat | Opt cls | Plus cls | Star cls

type_synonym pattern = "piece list"

text \<open>
  The backtracking matcher of \<open>re\<close>, anchored at the start of its input: greedy
  quantifiers take a character when they can and give it back only when the rest of the
  pattern fails. The result is the length of the match the engine reports, \<open>None\<close> when
  there is no match at this position. \<open>Star\<close> is the tail of \<open>Plus\<close>.
\<close>

fun match_here :: "pattern \<Rightarrow> string \<Rightarrow> nat option" where
  "match_here [] s = Some 0"
| "match_here (One c # ps) [] = None"
| "match_here (One c # ps) (x # xs) =
     (if in_cls c x then map_option Suc (match_here ps xs) else None)"
| "match_here (Rep c 0 # ps) s = match_here ps s"
| "match_here (Rep c (Suc n) # ps) [] = None"
| "match_here (Rep c (Suc n) # ps) (x # xs) =
     (if in_cls c x then map_option Suc (match_here (Rep c n # ps) xs) else None)"
| "match_here (Opt c # ps) [] = match_here ps []"
| "match_here (Opt c # ps) (x # xs) =
     (if in_cls c x
      then (case match_here ps xs of Some k \<Rightarrow> Some (Suc k) | None \<Rightarrow> match_here ps (x # xs))
      else match_here ps (x # xs))"
| "match_here (Plus c # ps) [] = None"
| "match_here (Plus c # ps) (x # xs) =
     (if in_cls c x then map_option Suc (match_here (Star c # ps) xs) else None)"
| "match_here (Star c # ps) [] = match_here ps []"
| "match_here (Star c # ps) (x # xs) =
     (if in_cls c x
      then (case match_here (Star c # ps) xs of Some k \<Rightarrow> Some (Suc k)
            | None \<Rightarrow> match_here ps (x # xs))
      else match_here ps (x # xs))"

text \<open>
  \<open>re.findall\<close>: scan the field from left to right; at each position try the pattern;
  a match is recorded and the scan resumes at its end (one character further when the
  match is empty); where nothing matches the scan moves on by one character.
\<close>

function findall_from :: "pattern \<Rightarrow> string \<Rightarrow> nat \<Rightarrow> string list" where
  "findall_from p s pos =
     (if length s < pos then []
      else (case match_here p (drop pos s) of
              None \<Rightarrow> findall_from p s (Suc pos)
            | Some k \<Rightarrow> take k (drop pos s) # findall_from p s (pos + max k 1)))"
  by pat_completeness auto
termination
  by (relation "measure (\<lambda>(p, s, pos). Suc (length s) - pos)") auto

definition findall :: "pattern \<Rightarrow> string \<Rightarrow> string list" where
  "findall p s = findall_from p s 0"

section \<open>The field classifier\<close>

text \<open>
  A type is a Python string or \<open>None\<close>: \<open>string option\<close>.
  \<^verbatim>\<open>
  def match_type(pattern, type, field):
      match = re.findall(pattern, field)
      if len(match) == 1 and len(match[0]) == len(field):
          return type
      return None
  \<close>
\<close>

definition match_type :: "pattern \<Rightarrow> string \<Rightarrow> string \<Rightarrow> string option" where
  "match_type pat ty field =
     (let match = findall pat field
      in if length match = 1 \<and> length (match ! 0) = length field then Some ty else None)"

definition sep :: cls where
  "sep = OneOf ''./-''"

definition pattern_type_pairs :: "(pattern \<times> string) list" where
  "pattern_type_pairs =
     [ ([Rep Digit 4, One sep, Rep Digit 2, One sep, Rep Digit 2], ''date''),
       ([Rep Digit 2, One sep, Rep Digit 2, One sep, Rep Digit 4], ''date''),
       ([Rep Digit 2, One sep, Rep Digit 2, One sep, Rep Digit 2], ''date''),
       ([Opt (OneOf ''-+''), Plus Digit, One (OneOf ''.''), Plus Digit], ''float(15)''),
       ([Opt (OneOf ''+-''), Plus Digit], ''float(15)'') ]"

text \<open>Python's truth value of \<open>match_type\<close>'s result: \<open>None\<close> and the empty string are false.\<close>

fun truthy :: "string option \<Rightarrow> bool" where
  "truthy None = False"
| "truthy (Some t) = (t \<noteq> [])"

text \<open>
  The loop \<^verbatim>\<open>for pattern, type in pattern_type_pairs\<close> followed by
  \<^verbatim>\<open>return "varchar(50)"\<close>.
\<close>

fun for_pairs :: "(pattern \<times> string) list \<Rightarrow> string \<Rightarrow> string option" where
  "for_pairs [] field = Some ''varchar(50)''"
| "for_pairs ((pat, ty) # pairs) field =
     (let ty' = match_type pat ty field
      in if truthy ty' then ty' else for_pairs pairs field)"

text \<open>
  \<^verbatim>\<open>
  def guess_sql_type(field):
      if field is None or len(field) == 0:
          return None
  \<close>
  The argument is \<open>None\<close> or a string.
\<close>

fun guess_sql_type :: "string option \<Rightarrow> string option" where
  "guess_sql_type None = None"
| "guess_sql_type (Some field) =
     (if length field = 0 then None else for_pairs pattern_type_pairs field)"

section \<open>The column type resolver\<close>

datatype error = StopIteration

text \<open>
  \<^verbatim>\<open>
  no_of_typed_columns = 0
  for type in types:
      if type is not None:
          no_of_typed_columns += 1
  \<close>
\<close>

fun count_typed :: "string option list \<Rightarrow> nat \<Rightarrow> nat" where
  "count_typed [] n = n"
| "count_typed (ty # types) n =
     (if ty \<noteq> None then count_typed types (n + 1) else count_typed types n)"

text \<open>
  The inner loop
  \<^verbatim>\<open>
  for i, (field, column_type) in enumerate(zip(row, types)):
      if len(field) != 0 and column_type is None:
          types[i] = guess_sql_type(field)
          no_of_typed_columns += 1
  \<close>
  \<open>zip\<close> reads \<open>types\<close> lazily, position by position, from the list being
  written, and stops at the shorter of \<open>row\<close> and \<open>types\<close>. The arguments are the
  index \<open>i\<close>, the fields of the row not yet visited, the type list and the counter.
\<close>

fun for_fields ::
  "nat \<Rightarrow> string list \<Rightarrow> string option list \<Rightarrow> nat \<Rightarrow> string option list \<times> nat" where
  "for_fields i [] types n = (types, n)"
| "for_fields i (field # fields) types n =
     (if length types \<le> i then (types, n)
      else if length field \<noteq> 0 \<and> types ! i = None
           then for_fields (Suc i) fields (types[i := guess_sql_type (Some field)]) (n + 1)
           else for_fields (Suc i) fields types n)"

text \<open>
  The outer loop
  \<^verbatim>\<open>
  for row in rows:
      if no_of_typed_columns == len(row):
          break
      ...
  \<close>
  over the iterator \<open>rows\<close>, modelled as the list of rows not yet pulled. The loop pulls
  a row before it tests the counter. The result is the type list, the counter and the
  iterator as the loop leaves them.
\<close>

fun for_rows ::
  "string option list \<Rightarrow> nat \<Rightarrow> string list list
     \<Rightarrow> string option list \<times> nat \<times> string list list" where
  "for_rows types n [] = (types, n, [])"
| "for_rows types n (row # rows) =
     (if n = length row then (types, n, rows)
      else (case for_fields 0 row types n of
              (types', n') \<Rightarrow> for_rows types' n' rows))"

text \<open>
  \<^verbatim>\<open>
  def predict_column_types(rows):
      row = next(rows)
      types = [guess_sql_type(field) for field in row]
      ...
      return types
  \<close>
  \<open>next\<close> raises \<open>StopIteration\<close> on an exhausted iterator. The function returns the
  type list; the model returns with it the iterator as the call leaves it, which is the
  function's effect on its argument.
\<close>

definition predict_column_types ::
  "string list list \<Rightarrow> error + (string option list \<times> string list list)" where
  "predict_column_types rows =
     (case rows of
        [] \<Rightarrow> Inl StopIteration
      | row # rows' \<Rightarrow>
          (let types = map (\<lambda>field. guess_sql_type (Some field)) row;
               no_of_typed_columns = count_typed types 0
           in case for_rows types no_of_typed_columns rows' of
                (types', n', rest) \<Rightarrow> Inr (types', rest)))"

text \<open>
  The pairs (type list, counter) the outer loop goes through: at each arrival at the
  loop head and when the loop is left.
\<close>

fun loop_states ::
  "string option list \<Rightarrow> nat \<Rightarrow> string list list \<Rightarrow> (string option list \<times> nat) list" where
  "loop_states types n [] = [(types, n)]"
| "loop_states types n (row # rows) =
     (types, n) #
     (if n = length row then []
      else (case for_fields 0 row types n of
              (types', n') \<Rightarrow> loop_states types' n' rows))"

section \<open>The notions of the specification\<close>

text \<open>The spec's names for the four type tags.\<close>

definition date :: "string option" where "date = Some ''date''"
definition decimal :: "string option" where "decimal = Some ''float(15)''"
definition text_tag :: "string option" where "text_tag = Some ''varchar(50)''"
definition unresolved :: "string option" where "unresolved = None"

definition classify :: "string \<Rightarrow> string option" where
  "classify field = guess_sql_type (Some field)"

text \<open>
  Full match, as the spec words it: the entire field string, with no remainder, matches
  the pattern. Every way of matching is tried; there is no preference among them.
\<close>

fun full_match :: "pattern \<Rightarrow> string \<Rightarrow> bool" where
  "full_match [] s = (s = [])"
| "full_match (One c # ps) [] = False"
| "full_match (One c # ps) (x # xs) = (in_cls c x \<and> full_match ps xs)"
| "full_match (Rep c 0 # ps) s = full_match ps s"
| "full_match (Rep c (Suc n) # ps) [] = False"
| "full_match (Rep c (Suc n) # ps) (x # xs) = (in_cls c x \<and> full_match (Rep c n # ps) xs)"
| "full_match (Opt c # ps) [] = full_match ps []"
| "full_match (Opt c # ps) (x # xs) =
     (full_match ps (x # xs) \<or> (in_cls c x \<and> full_match ps xs))"
| "full_match (Plus c # ps) [] = False"
| "full_match (Plus c # ps) (x # xs) = (in_cls c x \<and> full_match (Star c # ps) xs)"
| "full_match (Star c # ps) [] = full_match ps []"
| "full_match (Star c # ps) (x # xs) =
     (full_match ps (x # xs) \<or> (in_cls c x \<and> full_match (Star c # ps) xs))"

text \<open>
  The spec's classifier on a non-empty field: the tag of the first pattern of the ordered
  list that fully matches, \<open>text\<close> when none does.
\<close>

fun first_full_match :: "(pattern \<times> string) list \<Rightarrow> string \<Rightarrow> string option" where
  "first_full_match [] field = text_tag"
| "first_full_match ((pat, ty) # pairs) field =
     (if full_match pat field then Some ty else first_full_match pairs field)"

text \<open>The number of slots of a type vector that are not \<open>unresolved\<close>.\<close>

definition resolved_count :: "string option list \<Rightarrow> nat" where
  "resolved_count types = length (filter (\<lambda>ty. ty \<noteq> unresolved) types)"

text \<open>
  The first non-empty field value that appears for column \<open>i\<close> in a row stream (a row
  too short to have a field \<open>i\<close> contributes nothing).
\<close>

fun first_nonempty :: "nat \<Rightarrow> string list list \<Rightarrow> string option" where
  "first_nonempty i [] = None"
| "first_nonempty i (row # rows) =
     (if i < length row \<and> row ! i \<noteq> [] then Some (row ! i) else first_nonempty i rows)"

text \<open>Uniform arity: every row of the stream has \<open>columnCount\<close> fields.\<close>

definition uniform_arity :: "nat \<Rightarrow> string list list \<Rightarrow> bool" where
  "uniform_arity columnCount rows = list_all (\<lambda>row. length row = columnCount) rows"

text \<open>
  The spec's words for the two numeric rules: an optional sign, digits, and for rule 4 a
  literal dot and digits.
\<close>

definition digits :: "string \<Rightarrow> bool" where
  "digits ds = (ds \<noteq> [] \<and> list_all (\<lambda>x. x \<in> set ''0123456789'') ds)"

definition sign :: "string \<Rightarrow> bool" where
  "sign sg = (sg = [] \<or> sg = ''+'' \<or> sg = ''-'')"

section \<open>Patterns on which greedy matching and full matching agree\<close>

text \<open>
  A quantified class (\<open>?\<close>, \<open>+\<close>, \<open>*\<close>) is followed by nothing, or by a piece that
  must take a character of a class sharing no character with it. On such a pattern the
  greedy engine never has to give a character back.
\<close>

fun mandatory_apart :: "cls \<Rightarrow> pattern \<Rightarrow> bool" where
  "mandatory_apart c [] = True"
| "mandatory_apart c (One d # ps) = (\<forall>x \<in> set (chars_of c). x \<notin> set (chars_of d))"
| "mandatory_apart c (Plus d # ps) = (\<forall>x \<in> set (chars_of c). x \<notin> set (chars_of d))"
| "mandatory_apart c (Rep d (Suc n) # ps) = (\<forall>x \<in> set (chars_of c). x \<notin> set (chars_of d))"
| "mandatory_apart c (q # ps) = False"

fun unambiguous :: "pattern \<Rightarrow> bool" where
  "unambiguous [] = True"
| "unambiguous (One c # ps) = unambiguous ps"
| "unambiguous (Rep c n # ps) = unambiguous ps"
| "unambiguous (Opt c # ps) = (mandatory_apart c ps \<and> unambiguous ps)"
| "unambiguous (Plus c # ps) = (mandatory_apart c ps \<and> unambiguous ps)"
| "unambiguous (Star c # ps) = (mandatory_apart c ps \<and> unambiguous ps)"

section \<open>The matcher\<close>

declare findall_from.simps [simp del]

lemma findall_from_past: "length s < pos \<Longrightarrow> findall_from p s pos = []"
  by (subst findall_from.simps) simp

lemma findall_from_None:
  "pos \<le> length s \<Longrightarrow> match_here p (drop pos s) = None
     \<Longrightarrow> findall_from p s pos = findall_from p s (Suc pos)"
  by (subst findall_from.simps) simp

lemma findall_from_Some:
  "pos \<le> length s \<Longrightarrow> match_here p (drop pos s) = Some k
     \<Longrightarrow> findall_from p s pos = take k (drop pos s) # findall_from p s (pos + max k 1)"
  by (subst findall_from.simps) simp

lemma match_here_le: "match_here p s = Some k \<Longrightarrow> k \<le> length s"
  by (induction p s arbitrary: k rule: match_here.induct)
     (auto split: if_splits option.splits)

lemma full_match_skip_Opt: "full_match ps w \<Longrightarrow> full_match (Opt c # ps) w"
  by (cases w) auto

lemma full_match_skip_Star: "full_match ps w \<Longrightarrow> full_match (Star c # ps) w"
  by (cases w) auto

lemma match_here_sound: "match_here p s = Some k \<Longrightarrow> full_match p (take k s)"
  by (induction p s arbitrary: k rule: match_here.induct)
     (auto split: if_splits option.splits
           intro: full_match_skip_Opt full_match_skip_Star)

lemma apart_blocks:
  "mandatory_apart c ps \<Longrightarrow> in_cls c x \<Longrightarrow> \<not> full_match ps (x # xs)"
  by (induction c ps rule: mandatory_apart.induct) (auto simp: in_cls_def)

lemma greedy_takes_all:
  "unambiguous p \<Longrightarrow> full_match p s \<Longrightarrow> match_here p s = Some (length s)"
proof (induction p s rule: match_here.induct)
  case (8 c ps x xs)
  then show ?case by (auto dest: apart_blocks)
next
  case (12 c ps x xs)
  then show ?case by (auto dest: apart_blocks)
qed auto

lemma findall_from_short:
  "m \<in> set (findall_from p s pos) \<Longrightarrow> length m \<le> length s - pos"
proof (induction p s pos rule: findall_from.induct)
  case (1 p s pos)
  show ?case
  proof (cases "length s < pos")
    case True
    with "1.prems" show ?thesis by (simp add: findall_from_past)
  next
    case False
    note inr = this
    show ?thesis
    proof (cases "match_here p (drop pos s)")
      case None
      with inr "1.prems" have "m \<in> set (findall_from p s (Suc pos))"
        by (simp add: findall_from_None)
      from "1.IH"(1)[OF inr None this] show ?thesis by simp
    next
      case (Some k)
      with inr "1.prems" have "m = take k (drop pos s) \<or> m \<in> set (findall_from p s (pos + max k 1))"
        by (simp add: findall_from_Some)
      then show ?thesis
      proof
        assume "m = take k (drop pos s)"
        then show ?thesis by simp
      next
        assume "m \<in> set (findall_from p s (pos + max k 1))"
        from "1.IH"(2)[OF inr Some this] show ?thesis by simp
      qed
    qed
  qed
qed

lemma findall_whole:
  assumes "field \<noteq> []" "match_here p [] = None" "match_here p field = Some (length field)"
  shows "findall p field = [field]"
proof -
  have tail: "findall_from p field (length field) = []"
    using assms(2) by (simp add: findall_from_None findall_from_past)
  have "findall_from p field 0 = field # findall_from p field (0 + max (length field) 1)"
    using assms(3) by (simp add: findall_from_Some)
  moreover have "max (length field) 1 = length field"
    using assms(1) by (cases field) auto
  ultimately show ?thesis
    using tail by (simp add: findall_def)
qed

lemma findall_not_whole:
  assumes "field \<noteq> []" "match_here p field \<noteq> Some (length field)"
  shows "\<not> (length (findall p field) = 1 \<and> length (findall p field ! 0) = length field)"
proof
  assume h: "length (findall p field) = 1 \<and> length (findall p field ! 0) = length field"
  then obtain m where m: "findall_from p field 0 = [m]" "length m = length field"
    by (cases "findall p field") (auto simp: findall_def)
  show False
  proof (cases "match_here p field")
    case None
    then have "findall_from p field 0 = findall_from p field (Suc 0)"
      by (simp add: findall_from_None)
    with m(1) have "m \<in> set (findall_from p field (Suc 0))" by simp
    from findall_from_short[OF this] m(2) assms(1) show False
      by (cases field) auto
  next
    case (Some k)
    then have "findall_from p field 0 = take k field # findall_from p field (0 + max k 1)"
      by (simp add: findall_from_Some)
    with m(1) have "m = take k field" by simp
    with m(2) have "length field \<le> k" by simp
    moreover from match_here_le[OF Some] have "k \<le> length field" .
    ultimately show False using Some assms(2) by simp
  qed
qed

lemma match_type_eq:
  assumes "field \<noteq> []" "match_here p [] = None"
  shows "match_type p ty field =
           (if match_here p field = Some (length field) then Some ty else None)"
proof (cases "match_here p field = Some (length field)")
  case True
  from findall_whole[OF assms True] True show ?thesis
    by (simp add: match_type_def)
next
  case False
  from findall_not_whole[OF assms(1) False] False show ?thesis
    by (simp add: match_type_def Let_def)
qed

lemma match_type_full:
  assumes "field \<noteq> []" "match_here p [] = None" "unambiguous p"
  shows "match_type p ty field = (if full_match p field then Some ty else None)"
proof -
  have "match_here p field = Some (length field) \<longleftrightarrow> full_match p field"
    using match_here_sound[of p field "length field"] greedy_takes_all[OF assms(3), of field]
    by auto
  then show ?thesis using match_type_eq[OF assms(1,2)] by simp
qed

lemma for_pairs_first_full:
  assumes "field \<noteq> []"
    and "\<forall>(p, ty) \<in> set pairs. match_here p [] = None \<and> unambiguous p \<and> ty \<noteq> []"
  shows "for_pairs pairs field = first_full_match pairs field"
  using assms(2)
proof (induction pairs)
  case Nil
  show ?case by (simp add: text_tag_def)
next
  case (Cons a pairs)
  obtain p ty where a: "a = (p, ty)" by (cases a)
  with Cons.prems have p: "match_here p [] = None" "unambiguous p" "ty \<noteq> []" by auto
  from Cons have ih: "for_pairs pairs field = first_full_match pairs field" by simp
  show ?case
    using match_type_full[OF assms(1) p(1,2)] p(3) ih by (simp add: a)
qed

lemma pattern_type_pairs_unambiguous:
  "\<forall>(p, ty) \<in> set pattern_type_pairs. match_here p [] = None \<and> unambiguous p \<and> ty \<noteq> []"
  by (simp add: pattern_type_pairs_def sep_def numeral_2_eq_2 numeral_Bit0)

lemma classify_first_full:
  "field \<noteq> [] \<Longrightarrow> classify field = first_full_match pattern_type_pairs field"
  using for_pairs_first_full[OF _ pattern_type_pairs_unambiguous] by (simp add: classify_def)

section \<open>What the numeric patterns fully match\<close>

lemma full_match_Star_iff:
  "full_match (Star c # ps) s \<longleftrightarrow>
     (\<exists>ds t. s = ds @ t \<and> (\<forall>x \<in> set ds. in_cls c x) \<and> full_match ps t)"
proof (induction s)
  case Nil
  then show ?case by simp
next
  case (Cons x xs)
  show ?case
  proof
    assume "full_match (Star c # ps) (x # xs)"
    then consider "full_match ps (x # xs)" | "in_cls c x" "full_match (Star c # ps) xs"
      by auto
    then show "\<exists>ds t. x # xs = ds @ t \<and> (\<forall>x \<in> set ds. in_cls c x) \<and> full_match ps t"
    proof cases
      case 1
      then show ?thesis by (intro exI[of _ "[]"] exI[of _ "x # xs"]) simp
    next
      case 2
      with Cons.IH obtain ds t where "xs = ds @ t" "\<forall>x \<in> set ds. in_cls c x" "full_match ps t"
        by blast
      with 2(1) show ?thesis by (intro exI[of _ "x # ds"] exI[of _ t]) simp
    qed
  next
    assume "\<exists>ds t. x # xs = ds @ t \<and> (\<forall>x \<in> set ds. in_cls c x) \<and> full_match ps t"
    then obtain ds t where d: "x # xs = ds @ t" "\<forall>x \<in> set ds. in_cls c x" "full_match ps t"
      by blast
    show "full_match (Star c # ps) (x # xs)"
    proof (cases ds)
      case Nil
      with d have "full_match ps (x # xs)" by simp
      then show ?thesis by (rule full_match_skip_Star)
    next
      case (Cons y ys)
      with d have e: "x = y" "xs = ys @ t" "in_cls c x" "\<forall>x \<in> set ys. in_cls c x" by auto
      with d(3) Cons.IH have "full_match (Star c # ps) xs" by blast
      with e(3) show ?thesis by simp
    qed
  qed
qed

lemma full_match_Plus_iff:
  "full_match (Plus c # ps) s \<longleftrightarrow>
     (\<exists>ds t. s = ds @ t \<and> ds \<noteq> [] \<and> (\<forall>x \<in> set ds. in_cls c x) \<and> full_match ps t)"
proof (cases s)
  case Nil
  then show ?thesis by simp
next
  case (Cons x xs)
  show ?thesis
  proof
    assume "full_match (Plus c # ps) s"
    with Cons have "in_cls c x" "full_match (Star c # ps) xs" by auto
    then obtain ds t where "xs = ds @ t" "\<forall>x \<in> set ds. in_cls c x" "full_match ps t"
      using full_match_Star_iff by blast
    with \<open>in_cls c x\<close> Cons show "\<exists>ds t. s = ds @ t \<and> ds \<noteq> [] \<and> (\<forall>x \<in> set ds. in_cls c x) \<and> full_match ps t"
      by (intro exI[of _ "x # ds"] exI[of _ t]) simp
  next
    assume "\<exists>ds t. s = ds @ t \<and> ds \<noteq> [] \<and> (\<forall>x \<in> set ds. in_cls c x) \<and> full_match ps t"
    then obtain ds t where d: "s = ds @ t" "ds \<noteq> []" "\<forall>x \<in> set ds. in_cls c x" "full_match ps t"
      by blast
    then obtain y ys where ds: "ds = y # ys" by (cases ds) auto
    with d Cons have "x = y" "xs = ys @ t" "in_cls c x" "\<forall>x \<in> set ys. in_cls c x" by auto
    with d(4) have "full_match (Star c # ps) xs" using full_match_Star_iff by blast
    with \<open>in_cls c x\<close> Cons show "full_match (Plus c # ps) s" by simp
  qed
qed

lemma full_match_Opt_iff:
  "full_match (Opt c # ps) s \<longleftrightarrow>
     (\<exists>sg t. s = sg @ t \<and> length sg \<le> 1 \<and> (\<forall>x \<in> set sg. in_cls c x) \<and> full_match ps t)"
proof (cases s)
  case Nil
  then show ?thesis by simp
next
  case (Cons x xs)
  show ?thesis
  proof
    assume "full_match (Opt c # ps) s"
    with Cons consider "full_match ps s" | "in_cls c x" "full_match ps xs" by auto
    then show "\<exists>sg t. s = sg @ t \<and> length sg \<le> 1 \<and> (\<forall>x \<in> set sg. in_cls c x) \<and> full_match ps t"
    proof cases
      case 1
      then show ?thesis by (intro exI[of _ "[]"] exI[of _ s]) simp
    next
      case 2
      with Cons show ?thesis by (intro exI[of _ "[x]"] exI[of _ xs]) simp
    qed
  next
    assume "\<exists>sg t. s = sg @ t \<and> length sg \<le> 1 \<and> (\<forall>x \<in> set sg. in_cls c x) \<and> full_match ps t"
    then obtain sg t where d: "s = sg @ t" "length sg \<le> 1" "\<forall>x \<in> set sg. in_cls c x" "full_match ps t"
      by blast
    show "full_match (Opt c # ps) s"
    proof (cases sg)
      case Nil
      with d Cons show ?thesis by auto
    next
      case (Cons y ys)
      with d have "ys = []" by simp
      with Cons d \<open>s = x # xs\<close> show ?thesis by auto
    qed
  qed
qed

lemma sign_iff: "sign sg \<longleftrightarrow> length sg \<le> 1 \<and> (\<forall>x \<in> set sg. in_cls (OneOf ''+-'') x)"
proof (cases sg)
  case Nil
  then show ?thesis by (simp add: sign_def)
next
  case (Cons y ys)
  then show ?thesis by (cases ys) (auto simp: sign_def in_cls_def)
qed

lemma sign_iff': "sign sg \<longleftrightarrow> length sg \<le> 1 \<and> (\<forall>x \<in> set sg. in_cls (OneOf ''-+'') x)"
proof (cases sg)
  case Nil
  then show ?thesis by (simp add: sign_def)
next
  case (Cons y ys)
  then show ?thesis by (cases ys) (auto simp: sign_def in_cls_def)
qed

lemma digits_iff: "digits ds \<longleftrightarrow> ds \<noteq> [] \<and> (\<forall>x \<in> set ds. in_cls Digit x)"
  by (simp add: digits_def in_cls_def list_all_iff)

lemma full_match_digits: "full_match [Plus Digit] t \<longleftrightarrow> digits t"
  by (simp add: full_match_Plus_iff digits_iff)

lemma full_match_dot_digits:
  "full_match [One (OneOf ''.''), Plus Digit] u \<longleftrightarrow> (\<exists>fs. u = ''.'' @ fs \<and> digits fs)"
  by (cases u) (auto simp: in_cls_def full_match_digits)

lemma full_match_digits_dot_digits:
  "full_match [Plus Digit, One (OneOf ''.''), Plus Digit] t \<longleftrightarrow>
     (\<exists>ds fs. t = ds @ ''.'' @ fs \<and> digits ds \<and> digits fs)"
proof
  assume "full_match [Plus Digit, One (OneOf ''.''), Plus Digit] t"
  then obtain ds u where "t = ds @ u" "ds \<noteq> []" "\<forall>x \<in> set ds. in_cls Digit x"
    "full_match [One (OneOf ''.''), Plus Digit] u"
    unfolding full_match_Plus_iff[of Digit "[One (OneOf ''.''), Plus Digit]"] by blast
  then show "\<exists>ds fs. t = ds @ ''.'' @ fs \<and> digits ds \<and> digits fs"
    unfolding full_match_dot_digits digits_iff by blast
next
  assume "\<exists>ds fs. t = ds @ ''.'' @ fs \<and> digits ds \<and> digits fs"
  then obtain ds fs where d: "t = ds @ ''.'' @ fs" "digits ds" "digits fs" by blast
  then have "full_match [One (OneOf ''.''), Plus Digit] (''.'' @ fs)"
    unfolding full_match_dot_digits by blast
  with d(1,2) show "full_match [Plus Digit, One (OneOf ''.''), Plus Digit] t"
    unfolding full_match_Plus_iff[of Digit "[One (OneOf ''.''), Plus Digit]"] digits_iff by blast
qed

lemma integer_pattern:
  "full_match [Opt (OneOf ''+-''), Plus Digit] s \<longleftrightarrow>
     (\<exists>sg ds. s = sg @ ds \<and> sign sg \<and> digits ds)"
  unfolding full_match_Opt_iff full_match_digits sign_iff by blast

lemma fractional_pattern:
  "full_match [Opt (OneOf ''-+''), Plus Digit, One (OneOf ''.''), Plus Digit] s \<longleftrightarrow>
     (\<exists>sg ds fs. s = sg @ ds @ ''.'' @ fs \<and> sign sg \<and> digits ds \<and> digits fs)"
  unfolding full_match_Opt_iff full_match_digits_dot_digits sign_iff' by blast

section \<open>The classifier\<close>

lemma truthy_Some: "truthy t \<Longrightarrow> t \<noteq> None"
  by (cases t) auto

lemma for_pairs_not_None: "for_pairs pairs field \<noteq> None"
  by (induction pairs field rule: for_pairs.induct) (auto simp: Let_def dest: truthy_Some)

lemma guess_nonempty: "field \<noteq> [] \<Longrightarrow> guess_sql_type (Some field) \<noteq> None"
  by (simp add: for_pairs_not_None)

lemma guess_empty: "guess_sql_type (Some []) = None"
  by simp

declare guess_sql_type.simps [simp del]

section \<open>The counter and the inner loop\<close>

lemma count_typed_eq: "count_typed types n = n + resolved_count types"
  by (induction types arbitrary: n) (auto simp: resolved_count_def unresolved_def)

lemma resolved_count_update:
  "i < length types \<Longrightarrow> types ! i = None \<Longrightarrow> v \<noteq> None
     \<Longrightarrow> resolved_count (types[i := v]) = Suc (resolved_count types)"
proof (induction types arbitrary: i)
  case Nil
  then show ?case by simp
next
  case (Cons t types)
  then show ?case
    by (cases i) (auto simp: resolved_count_def unresolved_def)
qed

lemma for_fields_count:
  "n = resolved_count types \<Longrightarrow> for_fields i fields types n = (types', n')
     \<Longrightarrow> n' = resolved_count types'"
proof (induction fields arbitrary: i types n)
  case Nil
  then show ?case by auto
next
  case (Cons field fields)
  show ?case
  proof (cases "length types \<le> i")
    case True
    with Cons.prems show ?thesis by auto
  next
    case False
    show ?thesis
    proof (cases "length field \<noteq> 0 \<and> types ! i = None")
      case True
      with False have "resolved_count (types[i := guess_sql_type (Some field)]) = n + 1"
        using Cons.prems(1) guess_nonempty[of field] resolved_count_update[of i types]
        by simp
      with Cons.IH[of "n + 1" "types[i := guess_sql_type (Some field)]" "Suc i"]
        Cons.prems(2) False True
      show ?thesis by simp
    next
      case nowrite: False
      with Cons.IH[of n types "Suc i"] Cons.prems False show ?thesis by auto
    qed
  qed
qed

lemma for_fields_length: "length (fst (for_fields i fields types n)) = length types"
  by (induction fields arbitrary: i types n) (auto)

lemma for_fields_nth:
  "j < length types \<Longrightarrow>
   fst (for_fields i fields types n) ! j =
     (if i \<le> j \<and> j < i + length fields \<and> types ! j = None \<and> fields ! (j - i) \<noteq> []
      then guess_sql_type (Some (fields ! (j - i))) else types ! j)"
proof (induction fields arbitrary: i types n)
  case Nil
  then show ?case by (auto)
next
  case (Cons field fields)
  show ?case
  proof (cases "length types \<le> i")
    case True
    with Cons.prems show ?thesis by (auto)
  next
    case False
    show ?thesis
    proof (cases "length field \<noteq> 0 \<and> types ! i = None")
      case True
      let ?t1 = "types[i := guess_sql_type (Some field)]"
      have j1: "j < length ?t1" using Cons.prems by simp
      have g: "guess_sql_type (Some field) \<noteq> None" using True guess_nonempty[of field] by simp
      show ?thesis
        using Cons.IH[OF j1, of "Suc i" "n + 1"] True False g
        by (cases "j = i") (auto simp: nth_list_update nth_Cons' Suc_diff_Suc)
    next
      case nowrite: False
      show ?thesis
        using Cons.IH[OF Cons.prems, of "Suc i" n] nowrite False
        by (cases "j = i") (auto simp: nth_Cons' Suc_diff_Suc)
    qed
  qed
qed


section \<open>The outer loop\<close>

lemma for_rows_length:
  "for_rows types n rows = (types', n', rest) \<Longrightarrow> length types' = length types"
proof (induction rows arbitrary: types n)
  case Nil
  then show ?case by auto
next
  case (Cons row rows)
  show ?case
  proof (cases "n = length row")
    case True
    with Cons.prems show ?thesis by auto
  next
    case False
    obtain t1 n1 where s: "for_fields 0 row types n = (t1, n1)" by (cases "for_fields 0 row types n")
    with Cons.prems False have "for_rows t1 n1 rows = (types', n', rest)" by simp
    from Cons.IH[OF this] for_fields_length[of 0 row types n] s show ?thesis by simp
  qed
qed

lemma for_rows_count:
  "n = resolved_count types \<Longrightarrow> for_rows types n rows = (types', n', rest)
     \<Longrightarrow> n' = resolved_count types'"
proof (induction rows arbitrary: types n)
  case Nil
  then show ?case by auto
next
  case (Cons row rows)
  show ?case
  proof (cases "n = length row")
    case True
    with Cons.prems show ?thesis by auto
  next
    case False
    obtain t1 n1 where s: "for_fields 0 row types n = (t1, n1)" by (cases "for_fields 0 row types n")
    with Cons.prems False have r: "for_rows t1 n1 rows = (types', n', rest)" by simp
    from for_fields_count[OF Cons.prems(1) s] have "n1 = resolved_count t1" .
    from Cons.IH[OF this r] show ?thesis .
  qed
qed

lemma for_fields_keeps:
  "j < length types \<Longrightarrow> types ! j \<noteq> None \<Longrightarrow> fst (for_fields i fields types n) ! j = types ! j"
  by (auto simp: for_fields_nth)

lemma for_rows_keeps:
  "for_rows types n rows = (types', n', rest) \<Longrightarrow> j < length types \<Longrightarrow> types ! j \<noteq> None
     \<Longrightarrow> types' ! j = types ! j"
proof (induction rows arbitrary: types n)
  case Nil
  then show ?case by auto
next
  case (Cons row rows)
  show ?case
  proof (cases "n = length row")
    case True
    with Cons.prems show ?thesis by auto
  next
    case False
    obtain t1 n1 where s: "for_fields 0 row types n = (t1, n1)" by (cases "for_fields 0 row types n")
    with Cons.prems False have r: "for_rows t1 n1 rows = (types', n', rest)" by simp
    have t1: "t1 = fst (for_fields 0 row types n)" using s by simp
    have l: "j < length t1" using Cons.prems(2) for_fields_length[of 0 row types n] t1 by simp
    have k: "t1 ! j = types ! j" using for_fields_keeps[OF Cons.prems(2,3)] t1 by simp
    from Cons.IH[OF r l] k Cons.prems(3) show ?thesis by simp
  qed
qed

lemma for_rows_suffix:
  "for_rows types n rows = (types', n', rest) \<Longrightarrow> \<exists>k \<le> length rows. rest = drop k rows"
proof (induction rows arbitrary: types n)
  case Nil
  then show ?case by auto
next
  case (Cons row rows)
  show ?case
  proof (cases "n = length row")
    case True
    with Cons.prems have "rest = drop 1 (row # rows)" by auto
    then show ?thesis by (intro exI[of _ 1]) simp
  next
    case False
    obtain t1 n1 where s: "for_fields 0 row types n = (t1, n1)" by (cases "for_fields 0 row types n")
    with Cons.prems False have r: "for_rows t1 n1 rows = (types', n', rest)" by simp
    from Cons.IH[OF r] obtain k where "k \<le> length rows" "rest = drop k rows" by blast
    then show ?thesis by (intro exI[of _ "Suc k"]) simp
  qed
qed

lemma for_rows_first:
  "for_rows types n rows = (types', n', rest) \<Longrightarrow> j < length types \<Longrightarrow> types ! j = None
     \<Longrightarrow> types' ! j \<noteq> None
     \<Longrightarrow> \<exists>v. first_nonempty j rows = Some v \<and> types' ! j = guess_sql_type (Some v)"
proof (induction rows arbitrary: types n)
  case Nil
  then show ?case by auto
next
  case (Cons row rows)
  show ?case
  proof (cases "n = length row")
    case True
    with Cons.prems show ?thesis by auto
  next
    case False
    obtain t1 n1 where s: "for_fields 0 row types n = (t1, n1)" by (cases "for_fields 0 row types n")
    with Cons.prems False have r: "for_rows t1 n1 rows = (types', n', rest)" by simp
    have t1: "t1 = fst (for_fields 0 row types n)" using s by simp
    have l: "j < length t1" using Cons.prems(2) for_fields_length[of 0 row types n] t1 by simp
    have nth: "t1 ! j = (if j < length row \<and> row ! j \<noteq> [] then guess_sql_type (Some (row ! j)) else None)"
      using for_fields_nth[OF Cons.prems(2), of 0 row n] t1 Cons.prems(3) by simp
    show ?thesis
    proof (cases "j < length row \<and> row ! j \<noteq> []")
      case True
      with nth have g: "t1 ! j = guess_sql_type (Some (row ! j))" by simp
      with True guess_nonempty[of "row ! j"] have "t1 ! j \<noteq> None" by simp
      from for_rows_keeps[OF r l this] g True show ?thesis by simp
    next
      case skip: False
      with nth have "t1 ! j = None" by simp
      from Cons.IH[OF r l this Cons.prems(4)] skip show ?thesis by auto
    qed
  qed
qed

lemma resolved_count_full:
  "resolved_count types = length types \<Longrightarrow> j < length types \<Longrightarrow> types ! j \<noteq> None"
proof -
  assume a: "resolved_count types = length types" and j: "j < length types"
  have "\<forall>t \<in> set types. t \<noteq> None"
    using a length_filter_less[of _ types "\<lambda>ty. ty \<noteq> None"]
    by (fastforce simp: resolved_count_def unresolved_def)
  with j show ?thesis by simp
qed

lemma for_rows_resolves:
  "for_rows types n rows = (types', n', rest) \<Longrightarrow> n = resolved_count types
     \<Longrightarrow> uniform_arity (length types) rows \<Longrightarrow> j < length types \<Longrightarrow> types ! j = None
     \<Longrightarrow> first_nonempty j rows = Some v
     \<Longrightarrow> types' ! j = guess_sql_type (Some v)"
proof (induction rows arbitrary: types n)
  case Nil
  then show ?case by auto
next
  case (Cons row rows)
  from Cons.prems(3) have len: "length row = length types" and u: "uniform_arity (length types) rows"
    by (simp_all add: uniform_arity_def)
  show ?case
  proof (cases "n = length row")
    case True
    with len Cons.prems(2) have "resolved_count types = length types" by simp
    from resolved_count_full[OF this Cons.prems(4)] Cons.prems(5) show ?thesis by simp
  next
    case False
    obtain t1 n1 where s: "for_fields 0 row types n = (t1, n1)" by (cases "for_fields 0 row types n")
    with Cons.prems False have r: "for_rows t1 n1 rows = (types', n', rest)" by simp
    have t1: "t1 = fst (for_fields 0 row types n)" using s by simp
    have ll: "length t1 = length types" using for_fields_length[of 0 row types n] t1 by simp
    have l: "j < length t1" using Cons.prems(4) ll by simp
    have c1: "n1 = resolved_count t1" using for_fields_count[OF Cons.prems(2) s] .
    have u1: "uniform_arity (length t1) rows" using u ll by simp
    have nth: "t1 ! j = (if j < length row \<and> row ! j \<noteq> [] then guess_sql_type (Some (row ! j)) else None)"
      using for_fields_nth[OF Cons.prems(4), of 0 row n] t1 Cons.prems(5) by simp
    show ?thesis
    proof (cases "j < length row \<and> row ! j \<noteq> []")
      case True
      with nth have g: "t1 ! j = guess_sql_type (Some (row ! j))" by simp
      with True guess_nonempty[of "row ! j"] have "t1 ! j \<noteq> None" by simp
      from for_rows_keeps[OF r l this] g True Cons.prems(6) show ?thesis by simp
    next
      case skip: False
      with nth have "t1 ! j = None" by simp
      from Cons.IH[OF r c1 u1 l this] skip Cons.prems(6) show ?thesis by auto
    qed
  qed
qed

lemma loop_states_count:
  "n = resolved_count types \<Longrightarrow> (ts, k) \<in> set (loop_states types n rows) \<Longrightarrow> k = resolved_count ts"
proof (induction rows arbitrary: types n)
  case Nil
  then show ?case by auto
next
  case (Cons row rows)
  show ?case
  proof (cases "n = length row")
    case True
    with Cons.prems show ?thesis by auto
  next
    case False
    obtain t1 n1 where s: "for_fields 0 row types n = (t1, n1)" by (cases "for_fields 0 row types n")
    from for_fields_count[OF Cons.prems(1) s] have c1: "n1 = resolved_count t1" .
    from Cons.prems(2) False s have "(ts, k) = (types, n) \<or> (ts, k) \<in> set (loop_states t1 n1 rows)"
      by simp
    then show ?thesis
    proof
      assume "(ts, k) = (types, n)"
      with Cons.prems(1) show ?thesis by simp
    next
      assume "(ts, k) \<in> set (loop_states t1 n1 rows)"
      from Cons.IH[OF c1 this] show ?thesis .
    qed
  qed
qed

lemma loop_states_last:
  "for_rows types n rows = (types', n', rest) \<Longrightarrow> last (loop_states types n rows) = (types', n')"
proof (induction rows arbitrary: types n)
  case Nil
  then show ?case by auto
next
  case (Cons row rows)
  show ?case
  proof (cases "n = length row")
    case True
    with Cons.prems show ?thesis by auto
  next
    case False
    obtain t1 n1 where s: "for_fields 0 row types n = (t1, n1)" by (cases "for_fields 0 row types n")
    with Cons.prems False have r: "for_rows t1 n1 rows = (types', n', rest)" by simp
    have "loop_states t1 n1 rows \<noteq> []" by (cases rows) auto
    with Cons.IH[OF r] False s show ?thesis by simp
  qed
qed


section \<open>The resolver as a whole\<close>

lemma predict_Cons:
  "predict_column_types (row # rows) = Inr (types, rest) \<longleftrightarrow>
     (\<exists>n'. for_rows (map (\<lambda>field. guess_sql_type (Some field)) row)
                (resolved_count (map (\<lambda>field. guess_sql_type (Some field)) row)) rows
            = (types, n', rest))"
  by (auto simp: predict_column_types_def Let_def count_typed_eq split: prod.splits)

lemma predict_Inr:
  assumes "predict_column_types rows = Inr (types, rest)"
  obtains row rows' n' where "rows = row # rows'"
    and "for_rows (map (\<lambda>field. guess_sql_type (Some field)) row)
            (resolved_count (map (\<lambda>field. guess_sql_type (Some field)) row)) rows'
          = (types, n', rest)"
proof (cases rows)
  case Nil
  with assms show ?thesis by (simp add: predict_column_types_def)
next
  case (Cons row rows')
  with assms predict_Cons[of row rows' types rest] that show ?thesis by blast
qed

lemma first_full_match_none:
  "\<forall>(p, ty) \<in> set pairs. \<not> full_match p field \<Longrightarrow> first_full_match pairs field = text_tag"
  by (induction pairs) auto

lemma resolved_count_all:
  "\<forall>t \<in> set types. t \<noteq> None \<Longrightarrow> resolved_count types = length types"
  by (induction types) (auto simp: resolved_count_def unresolved_def)

lemma seed_nth:
  "i < length row \<Longrightarrow> map (\<lambda>field. guess_sql_type (Some field)) row ! i = classify (row ! i)"
  by (simp add: classify_def)

lemma predict_sound:
  assumes p: "predict_column_types rows = Inr (types, rest)"
    and i: "i < length types" and r: "types ! i \<noteq> None"
  shows "\<exists>v. first_nonempty i rows = Some v \<and> types ! i = classify v"
proof -
  from p obtain row rows' n' where rows: "rows = row # rows'"
    and fr: "for_rows (map (\<lambda>field. guess_sql_type (Some field)) row)
               (resolved_count (map (\<lambda>field. guess_sql_type (Some field)) row)) rows'
             = (types, n', rest)"
    by (rule predict_Inr)
  let ?seed = "map (\<lambda>field. guess_sql_type (Some field)) row"
  from for_rows_length[OF fr] i have il: "i < length ?seed" by simp
  then have ir: "i < length row" by simp
  show ?thesis
  proof (cases "row ! i = []")
    case True
    with ir have "?seed ! i = None" by (simp add: guess_empty)
    from for_rows_first[OF fr il this r] True ir rows show ?thesis
      by (auto simp: classify_def)
  next
    case False
    with ir guess_nonempty[of "row ! i"] have "?seed ! i \<noteq> None" by simp
    from for_rows_keeps[OF fr il this] ir False rows show ?thesis
      by (simp add: classify_def)
  qed
qed

lemma predict_complete:
  assumes p: "predict_column_types rows = Inr (types, rest)"
    and u: "uniform_arity (length types) rows"
    and i: "i < length types" and f: "first_nonempty i rows = Some v"
  shows "types ! i = classify v"
proof -
  from p obtain row rows' n' where rows: "rows = row # rows'"
    and fr: "for_rows (map (\<lambda>field. guess_sql_type (Some field)) row)
               (resolved_count (map (\<lambda>field. guess_sql_type (Some field)) row)) rows'
             = (types, n', rest)"
    by (rule predict_Inr)
  let ?seed = "map (\<lambda>field. guess_sql_type (Some field)) row"
  from for_rows_length[OF fr] have len: "length types = length ?seed" by simp
  with i have il: "i < length ?seed" by simp
  then have ir: "i < length row" by simp
  from u rows len have u': "uniform_arity (length ?seed) rows'"
    by (simp add: uniform_arity_def)
  show ?thesis
  proof (cases "row ! i = []")
    case True
    with ir have s: "?seed ! i = None" by (simp add: guess_empty)
    from True ir rows f have "first_nonempty i rows' = Some v" by simp
    from for_rows_resolves[OF fr refl u' il s this] show ?thesis
      by (simp add: classify_def)
  next
    case False
    with ir guess_nonempty[of "row ! i"] have "?seed ! i \<noteq> None" by simp
    from for_rows_keeps[OF fr il this] ir False rows f show ?thesis
      by (auto simp: classify_def)
  qed
qed

lemma predict_total:
  "rows \<noteq> [] \<Longrightarrow> \<exists>types rest. predict_column_types rows = Inr (types, rest)"
  by (cases rows) (auto simp: predict_column_types_def Let_def split: prod.splits)

lemma predict_length:
  "predict_column_types rows = Inr (types, rest) \<Longrightarrow> length types = length (hd rows)"
proof -
  assume p: "predict_column_types rows = Inr (types, rest)"
  from p obtain row rows' n' where rows: "rows = row # rows'"
    and fr: "for_rows (map (\<lambda>field. guess_sql_type (Some field)) row)
               (resolved_count (map (\<lambda>field. guess_sql_type (Some field)) row)) rows'
             = (types, n', rest)"
    by (rule predict_Inr)
  from for_rows_length[OF fr] rows show ?thesis by simp
qed

lemma predict_suffix:
  "predict_column_types rows = Inr (types, rest) \<Longrightarrow>
     \<exists>k. 0 < k \<and> k \<le> length rows \<and> rest = drop k rows"
proof -
  assume p: "predict_column_types rows = Inr (types, rest)"
  from p obtain row rows' n' where rows: "rows = row # rows'"
    and fr: "for_rows (map (\<lambda>field. guess_sql_type (Some field)) row)
               (resolved_count (map (\<lambda>field. guess_sql_type (Some field)) row)) rows'
             = (types, n', rest)"
    by (rule predict_Inr)
  from for_rows_suffix[OF fr] obtain k where "k \<le> length rows'" "rest = drop k rows'" by blast
  with rows show ?thesis by (intro exI[of _ "Suc k"]) simp
qed

lemma seed_all_resolved:
  "\<forall>field \<in> set row. field \<noteq> [] \<Longrightarrow>
     resolved_count (map (\<lambda>field. guess_sql_type (Some field)) row) = length row"
proof -
  assume a: "\<forall>field \<in> set row. field \<noteq> []"
  have "\<forall>t \<in> set (map (\<lambda>field. guess_sql_type (Some field)) row). t \<noteq> None"
    using a guess_nonempty by auto
  from resolved_count_all[OF this] show ?thesis by simp
qed

section \<open>The claims\<close>

text \<open>
  C1 (as the code has it). The resolver has no fallback step: a slot still \<open>unresolved\<close>
  when the loop ends is returned \<open>unresolved\<close> (\<open>None\<close>), never \<open>text\<close>. A column
  in which no row of the stream has a non-empty field comes out \<open>unresolved\<close>; on the
  three rows \<open>[[""],[""],[""]]\<close> the result is \<open>[unresolved]\<close>, not \<open>[text]\<close>.
\<close>

theorem empty_column_stays_unresolved:
  assumes "predict_column_types rows = Inr (types, rest)"
    and "i < length types" and "first_nonempty i rows = None"
  shows "types ! i = unresolved"
proof (rule ccontr)
  assume "types ! i \<noteq> unresolved"
  then have "types ! i \<noteq> None" by (simp add: unresolved_def)
  from predict_sound[OF assms(1,2) this] assms(3) show False by simp
qed

theorem all_empty_column_is_text_counterexample:
  "predict_column_types [[''''], [''''], ['''']] = Inr ([unresolved], [])
   \<and> [unresolved] \<noteq> [text_tag]"
  by code_simp

theorem empty_column_stays_unresolved_witness:
  "predict_column_types [[''''], [''''], ['''']] = Inr ([None], [])
   \<and> (0::nat) < length [None :: string option]
   \<and> first_nonempty 0 [[''''], [''''], ['''']] = None
   \<and> [None] ! 0 = unresolved"
proof -
  have a: "predict_column_types [[''''], [''''], ['''']] = Inr ([None], [])" by code_simp
  have b: "(0::nat) < length [None :: string option]" by simp
  have c: "first_nonempty 0 [[''''], [''''], ['''']] = None" by code_simp
  from empty_column_stays_unresolved[OF a b c] a b c show ?thesis by blast
qed

text \<open>
  C2 (as the code has it). The loop tests the counter after it has pulled the next row,
  against the number of fields of that row: when they are equal the pulled row is dropped
  unexamined and no further row is pulled. When the first row resolves every column, the
  resolver consumes that row alone only if the stream ends there; if a second row of the
  same arity follows, it is consumed too, and the stream is left after it.
\<close>

theorem break_after_pulling_next_row:
  assumes "\<forall>field \<in> set row. field \<noteq> []"
  shows "for_rows types (length row2) (row2 # rows) = (types, length row2, rows)
         \<and> predict_column_types [row] = Inr (map classify row, [])
         \<and> (length row2 = length row \<longrightarrow>
              predict_column_types (row # row2 # rows) = Inr (map classify row, rows))"
  using seed_all_resolved[OF assms]
  by (auto simp: predict_column_types_def Let_def count_typed_eq classify_def)

theorem one_row_consumed_counterexample:
  "map classify [''1''] = [decimal]
   \<and> predict_column_types [[''1''], [''2''], [''3'']] = Inr ([decimal], [[''3'']])
   \<and> predict_column_types [[''1''], [''2''], [''3'']] \<noteq> Inr ([decimal], [[''2''], [''3'']])"
  by code_simp

theorem break_after_pulling_next_row_witness:
  "list_all (\<lambda>field. field \<noteq> []) [''1'']
   \<and> length [''2''] = length [''1'']
   \<and> for_rows [decimal] (length [''2'']) [[''2''], [''3'']] = ([decimal], length [''2''], [[''3'']])
   \<and> predict_column_types [[''1'']] = Inr (map classify [''1''], [])
   \<and> predict_column_types [[''1''], [''2''], [''3'']] = Inr (map classify [''1''], [[''3'']])"
proof -
  have a: "\<forall>field \<in> set [''1'']. field \<noteq> []" by simp
  have b: "length [''2''] = length [''1'']" by simp
  from break_after_pulling_next_row[OF a, of "[decimal]" "[''2'']" "[[''3'']]"] a b
  show ?thesis by (simp add: list_all_iff)
qed

text \<open>
  C3. On an empty row stream (no first row) the resolver fails at once: \<open>next\<close>
  raises \<open>StopIteration\<close>, which reaches the caller; no type vector, empty or
  otherwise, is returned.
\<close>

theorem empty_stream_fails: "predict_column_types [] = Inl StopIteration"
  by (simp add: predict_column_types_def)

text \<open>
  C4. On a non-empty field the classifier returns the tag of the first pattern, in the
  order of the list, that matches the entire field with no remainder, and \<open>text\<close> when
  there is none; \<open>2024-01-05\<close> is a date, not a decimal.
\<close>

theorem classify_is_first_full_match:
  "(field \<noteq> [] \<longrightarrow> classify field = first_full_match pattern_type_pairs field)
   \<and> classify ''2024-01-05'' = date"
proof
  show "field \<noteq> [] \<longrightarrow> classify field = first_full_match pattern_type_pairs field"
    using classify_first_full by blast
  show "classify ''2024-01-05'' = date" by code_simp
qed

theorem classify_is_first_full_match_witness:
  "''31-12-2023'' \<noteq> [] \<and>
   classify ''31-12-2023'' = first_full_match pattern_type_pairs ''31-12-2023'' \<and>
   first_full_match pattern_type_pairs ''31-12-2023'' = date"
proof -
  have ne: "''31-12-2023'' \<noteq> []" by simp
  have v: "first_full_match pattern_type_pairs ''31-12-2023'' = date" by code_simp
  from classify_is_first_full_match[of "''31-12-2023''"] ne v show ?thesis by blast
qed

text \<open>
  C5. The classifier returns \<open>unresolved\<close> on the empty string, and \<open>text\<close> on every
  non-empty string that none of the five patterns fully matches.
\<close>

theorem classify_empty_and_fallback:
  "classify [] = unresolved \<and>
   (field \<noteq> [] \<and> (\<forall>(p, ty) \<in> set pattern_type_pairs. \<not> full_match p field)
      \<longrightarrow> classify field = text_tag)"
  using classify_first_full[of field] first_full_match_none[of pattern_type_pairs field]
  by (auto simp: classify_def unresolved_def guess_empty)

theorem classify_empty_and_fallback_witness:
  "''hello'' \<noteq> [] \<and> list_all (\<lambda>(p, ty). \<not> full_match p ''hello'') pattern_type_pairs
   \<and> classify ''hello'' = text_tag"
proof -
  have ne: "''hello'' \<noteq> []" by simp
  have nm: "\<forall>(p, ty) \<in> set pattern_type_pairs. \<not> full_match p ''hello''" by code_simp
  then have la: "list_all (\<lambda>(p, ty). \<not> full_match p ''hello'') pattern_type_pairs"
    by (simp add: list_all_iff)
  from classify_empty_and_fallback[of "''hello''"] ne nm la show ?thesis by blast
qed

text \<open>
  C6. \<open>12.34\<close>, \<open>-7\<close> and \<open>+7\<close> are all classified as \<open>decimal\<close>: signed fractional
  and signed integer strings share one type tag.
\<close>

theorem numbers_are_decimal:
  "classify ''12.34'' = decimal \<and> classify ''-7'' = decimal \<and> classify ''+7'' = decimal"
  by code_simp

text \<open>
  C7. A slot that holds a tag other than \<open>unresolved\<close> keeps it through the rest of
  the loop, from any state of the loop onwards. In the result, the tag of every resolved
  column is the classifier's answer on the first non-empty field value of that column in
  the row stream; later rows never override it. When all rows have the arity of the type
  vector, every column that has a non-empty value is resolved that way.
\<close>

theorem first_nonempty_value_decides:
  "(for_rows types n rows = (types', n', rest) \<and> j < length types \<and> types ! j \<noteq> unresolved
      \<longrightarrow> types' ! j = types ! j)
   \<and> (predict_column_types stream = Inr (result, rest') \<and> i < length result
        \<and> result ! i \<noteq> unresolved
      \<longrightarrow> (\<exists>v. first_nonempty i stream = Some v \<and> result ! i = classify v))
   \<and> (predict_column_types stream = Inr (result, rest') \<and> i < length result
        \<and> uniform_arity (length result) stream \<and> first_nonempty i stream = Some w
      \<longrightarrow> result ! i = classify w)"
proof (intro conjI impI)
  assume "for_rows types n rows = (types', n', rest) \<and> j < length types \<and> types ! j \<noteq> unresolved"
  then show "types' ! j = types ! j"
    using for_rows_keeps[of types n rows types' n' rest j] by (simp add: unresolved_def)
next
  assume "predict_column_types stream = Inr (result, rest') \<and> i < length result
            \<and> result ! i \<noteq> unresolved"
  then show "\<exists>v. first_nonempty i stream = Some v \<and> result ! i = classify v"
    using predict_sound[of stream result rest' i] by (simp add: unresolved_def)
next
  assume "predict_column_types stream = Inr (result, rest') \<and> i < length result
            \<and> uniform_arity (length result) stream \<and> first_nonempty i stream = Some w"
  then show "result ! i = classify w"
    using predict_complete[of stream result rest' i w] by simp
qed

theorem first_nonempty_value_decides_witness:
  "for_rows [decimal, None] 1 [[''2'', ''hello''], [''3'', ''4'']] = ([decimal, text_tag], 2, [])
   \<and> (0::nat) < length [decimal, None] \<and> [decimal, None] ! 0 \<noteq> unresolved
   \<and> [decimal, text_tag] ! 0 = [decimal, None] ! 0
   \<and> predict_column_types [[''1'', ''''], [''2'', ''hello''], [''3'', ''4'']]
         = Inr ([decimal, text_tag], [])
   \<and> (1::nat) < length [decimal, text_tag] \<and> [decimal, text_tag] ! 1 \<noteq> unresolved
   \<and> uniform_arity (length [decimal, text_tag]) [[''1'', ''''], [''2'', ''hello''], [''3'', ''4'']]
   \<and> first_nonempty 1 [[''1'', ''''], [''2'', ''hello''], [''3'', ''4'']] = Some ''hello''
   \<and> [decimal, text_tag] ! 1 = classify ''hello''"
proof -
  have a: "for_rows [decimal, None] 1 [[''2'', ''hello''], [''3'', ''4'']]
             = ([decimal, text_tag], 2, [])" by code_simp
  have b: "(0::nat) < length [decimal, None] \<and> [decimal, None] ! 0 \<noteq> unresolved"
    by (simp add: decimal_def unresolved_def)
  have c: "predict_column_types [[''1'', ''''], [''2'', ''hello''], [''3'', ''4'']]
             = Inr ([decimal, text_tag], [])" by code_simp
  have d: "(1::nat) < length [decimal, text_tag] \<and> [decimal, text_tag] ! 1 \<noteq> unresolved"
    by (simp add: text_tag_def unresolved_def)
  have e: "uniform_arity (length [decimal, text_tag])
             [[''1'', ''''], [''2'', ''hello''], [''3'', ''4'']]" by code_simp
  have f: "first_nonempty 1 [[''1'', ''''], [''2'', ''hello''], [''3'', ''4'']] = Some ''hello''"
    by code_simp
  from first_nonempty_value_decides[of "[decimal, None]" 1 "[[''2'', ''hello''], [''3'', ''4'']]"
         "[decimal, text_tag]" 2 "[]" 0
         "[[''1'', ''''], [''2'', ''hello''], [''3'', ''4'']]" "[decimal, text_tag]" "[]" 1
         "''hello''"]
    a b c d e f
  show ?thesis by simp
qed

text \<open>
  C8. On a non-empty row stream in which every row has \<open>columnCount\<close> fields, the
  resolver returns a type vector of length \<open>columnCount\<close>.
\<close>

theorem type_vector_length:
  assumes "rows \<noteq> []" and "uniform_arity columnCount rows"
  shows "\<exists>types rest. predict_column_types rows = Inr (types, rest)
                        \<and> length types = columnCount"
proof -
  from predict_total[OF assms(1)] obtain types rest
    where p: "predict_column_types rows = Inr (types, rest)" by blast
  from assms have "length (hd rows) = columnCount"
    by (cases rows) (auto simp: uniform_arity_def)
  with predict_length[OF p] p show ?thesis by simp
qed

theorem type_vector_length_witness:
  "[[''1'', ''''], [''2'', ''hello'']] \<noteq> []
   \<and> uniform_arity 2 [[''1'', ''''], [''2'', ''hello'']]
   \<and> (\<exists>types rest. predict_column_types [[''1'', ''''], [''2'', ''hello'']] = Inr (types, rest)
                         \<and> length types = 2)"
proof -
  have a: "[[''1'', ''''], [''2'', ''hello'']] \<noteq> []" by simp
  have b: "uniform_arity 2 [[''1'', ''''], [''2'', ''hello'']]" by code_simp
  from type_vector_length[OF a b] a b show ?thesis by blast
qed

text \<open>
  C9. On every finite row stream the resolver returns after pulling \<open>k\<close> rows, with
  \<open>k\<close> at most the number of rows: none on the empty stream, where it fails, and at
  least the first row otherwise. The rows pulled are the first \<open>k\<close> rows of the stream,
  in order and each once, and the iterator is left at the rows behind them.
\<close>

theorem pulls_bounded_forward_only:
  "\<exists>k \<le> length rows.
      (case predict_column_types rows of
         Inl e \<Rightarrow> k = 0 \<and> rows = []
       | Inr (types, rest) \<Rightarrow> 0 < k \<and> rows = take k rows @ rest)"
proof (cases "predict_column_types rows")
  case (Inl e)
  then have "rows = []"
    by (cases rows) (auto simp: predict_column_types_def Let_def split: prod.splits)
  with Inl show ?thesis by simp
next
  case (Inr r)
  obtain types rest where r: "r = (types, rest)" by (cases r)
  from predict_suffix[of rows types rest] Inr r
  obtain k where "0 < k" "k \<le> length rows" "rest = drop k rows" by auto
  with Inr r show ?thesis by (intro exI[of _ k]) simp
qed

text \<open>
  C10. The classifier never answers \<open>unresolved\<close> on a non-empty field, so a write to
  an \<open>unresolved\<close> slot for a non-empty field raises the number of resolved slots by
  one. Hence the counter equals the number of slots that are not \<open>unresolved\<close>: the
  inner loop keeps the equality from any state where it holds, and it holds in every
  state the outer loop goes through, from the seeding by the first row onwards.
\<close>

theorem counter_counts_resolved_slots:
  "(field \<noteq> [] \<longrightarrow> classify field \<noteq> unresolved)
   \<and> (i < length types \<and> types ! i = unresolved \<and> field \<noteq> []
        \<longrightarrow> resolved_count (types[i := classify field]) = resolved_count types + 1)
   \<and> (n = resolved_count types
        \<longrightarrow> snd (for_fields i fields types n) = resolved_count (fst (for_fields i fields types n)))
   \<and> (\<forall>(ts, k) \<in> set (loop_states (map classify row) (count_typed (map classify row) 0) rows).
         k = resolved_count ts)"
proof (intro conjI impI)
  assume "field \<noteq> []"
  then show "classify field \<noteq> unresolved"
    by (simp add: classify_def unresolved_def guess_nonempty)
next
  assume a: "i < length types \<and> types ! i = unresolved \<and> field \<noteq> []"
  then have i: "i < length types" and t: "types ! i = None" and f: "field \<noteq> []"
    by (simp_all add: unresolved_def)
  from guess_nonempty[OF f] have "classify field \<noteq> None" by (simp add: classify_def)
  from resolved_count_update[OF i t this]
  show "resolved_count (types[i := classify field]) = resolved_count types + 1" by simp
next
  assume n: "n = resolved_count types"
  obtain t1 n1 where s: "for_fields i fields types n = (t1, n1)"
    by (cases "for_fields i fields types n")
  from for_fields_count[OF n s] s
  show "snd (for_fields i fields types n) = resolved_count (fst (for_fields i fields types n))"
    by simp
next
  have eq: "count_typed (map classify row) 0 = resolved_count (map classify row)"
    by (simp add: count_typed_eq)
  show "\<forall>(ts, k) \<in> set (loop_states (map classify row) (count_typed (map classify row) 0) rows).
         k = resolved_count ts"
  proof (clarify)
    fix ts k
    assume "(ts, k) \<in> set (loop_states (map classify row) (count_typed (map classify row) 0) rows)"
    from loop_states_count[OF eq this] show "k = resolved_count ts" .
  qed
qed

theorem counter_counts_resolved_slots_witness:
  "''hello'' \<noteq> [] \<and> classify ''hello'' \<noteq> unresolved
   \<and> (0::nat) < length [unresolved, decimal] \<and> [unresolved, decimal] ! 0 = unresolved
   \<and> resolved_count ([unresolved, decimal][0 := classify ''hello''])
         = resolved_count [unresolved, decimal] + 1
   \<and> (1::nat) = resolved_count [unresolved, decimal]
   \<and> snd (for_fields 0 [''hello'', ''''] [unresolved, decimal] 1)
         = resolved_count (fst (for_fields 0 [''hello'', ''''] [unresolved, decimal] 1))
   \<and> list_all (\<lambda>(ts, k). k = resolved_count ts)
         (loop_states (map classify ['''', ''1'']) (count_typed (map classify ['''', ''1'']) 0)
            [['''', ''2''], [''hello'', ''3'']])
   \<and> loop_states (map classify ['''', ''1'']) (count_typed (map classify ['''', ''1'']) 0)
            [['''', ''2''], [''hello'', ''3'']]
       = [([unresolved, decimal], 1), ([unresolved, decimal], 1), ([text_tag, decimal], 2)]"
proof -
  have a: "''hello'' \<noteq> []" by simp
  have b: "(0::nat) < length [unresolved, decimal] \<and> [unresolved, decimal] ! 0 = unresolved"
    by simp
  have c: "(1::nat) = resolved_count [unresolved, decimal]" by code_simp
  have d: "loop_states (map classify ['''', ''1'']) (count_typed (map classify ['''', ''1'']) 0)
            [['''', ''2''], [''hello'', ''3'']]
       = [([unresolved, decimal], 1), ([unresolved, decimal], 1), ([text_tag, decimal], 2)]"
    by code_simp
  note t = counter_counts_resolved_slots[of "''hello''" 0 "[unresolved, decimal]" 1
         "[''hello'', '''']" "['''', ''1'']" "[['''', ''2''], [''hello'', ''3'']]"]
  from b have b1: "(0::nat) < length [unresolved, decimal]"
    and b2: "[unresolved, decimal] ! 0 = unresolved"
    by (rule conjunct1, rule conjunct2)
  from b1 b2 a
  have ba: "0 < length [unresolved, decimal] \<and> [unresolved, decimal] ! 0 = unresolved
             \<and> ''hello'' \<noteq> []"
    by (intro conjI)
  from t[THEN conjunct1] a have r1: "classify ''hello'' \<noteq> unresolved" by (rule mp)
  from t[THEN conjunct2, THEN conjunct1] ba
  have r2: "resolved_count ([unresolved, decimal][0 := classify ''hello''])
              = resolved_count [unresolved, decimal] + 1"
    by (rule mp)
  from t[THEN conjunct2, THEN conjunct2, THEN conjunct1] c
  have r3: "snd (for_fields 0 [''hello'', ''''] [unresolved, decimal] 1)
              = resolved_count (fst (for_fields 0 [''hello'', ''''] [unresolved, decimal] 1))"
    by (rule mp)
  from t[THEN conjunct2, THEN conjunct2, THEN conjunct2]
  have r4: "list_all (\<lambda>(ts, k). k = resolved_count ts)
         (loop_states (map classify ['''', ''1'']) (count_typed (map classify ['''', ''1'']) 0)
            [['''', ''2''], [''hello'', ''3'']])"
    by (simp only: list_all_iff)
  show ?thesis
    by (intro conjI) (rule a r1 b1 b2 r2 c r3 r4 d)+
qed

end
